theory Spec2Isabelle
  imports Complex_Main "HOL-Library.Char_ord" "HOL-Library.List_Lexorder"
begin

section \<open>Errors\<close>

text \<open>
  The exceptions the Python code (and the pandas / numpy calls it makes) can raise
  on the paths modelled here.
\<close>

datatype error = IndexError | ValueError | ZeroDivisionError

section \<open>util.py: the false-discovery-rate cut-off\<close>




section \<open>adbscan.py: data model\<close>

text \<open>
  A coordinate table \<open>xys[xy]\<close> is the list of its rows, each the pair of the two
  coordinate columns; floats are modelled as exact reals. A table of labels
  (\<open>solus\<close>) is the list of its columns in column order, each column the list of its
  cells in row order; column names are the column positions (they are distinct, as
  \<open>fit\<close> builds them) and rows are matched by position (the tables share one index).
\<close>

type_synonym point = "real \<times> real"

type_synonym 'l matrix = "'l list list"

text \<open>
  \<open>lbl_type\<close> is the runtime type of the labels (\<open>str\<close> in \<open>fit\<close>, \<open>int\<close> in
  the doctests). The code uses it twice: \<open>lbl_type(-1)\<close>, the noise label, and
  \<open>np.zeros(..., dtype=lbl_type)\<close>, the filler of a fresh result holder.
\<close>

record 'l lbl_type =
  minus_one :: 'l
  zeros :: 'l

datatype warning = MultiCoreWarning | NoClustersIdentified

definition int_lbl :: "int lbl_type" where
  "int_lbl = \<lparr>minus_one = -1, zeros = 0\<rparr>"

subsection \<open>Group means\<close>

text \<open>
  \<open>xys.groupby(lbls)[xy].apply(lambda xys: xys.mean()).drop(lbl_type(-1), errors="ignore")\<close>:
  one row per label that occurs, keys in sorted order, the row of the noise label
  dropped when there is one.
\<close>

definition group_pts :: "point list \<Rightarrow> 'l list \<Rightarrow> 'l \<Rightarrow> point list" where
  "group_pts xys lbls l = map fst (filter (\<lambda>pk. snd pk = l) (zip xys lbls))"

definition mean_pt :: "point list \<Rightarrow> point" where
  "mean_pt ps = (sum_list (map fst ps) / real (length ps),
                sum_list (map snd ps) / real (length ps))"

definition centroids :: "'l::linorder \<Rightarrow> point list \<Rightarrow> 'l list \<Rightarrow> ('l \<times> point) list" where
  "centroids noise xys lbls =
     map (\<lambda>l. (l, mean_pt (group_pts xys lbls l)))
       (filter (\<lambda>l. l \<noteq> noise) (sort (remdups (map snd (zip xys lbls)))))"

subsection \<open>The spatial index\<close>

text \<open>
  Modelled from the spec: \<open>cKDTree(ref_centroids).query(q)\<close> is the external spatial
  index, "given a set of reference coordinates, returns the index of the nearest one to
  a query coordinate". The model takes the Euclidean distance and the lowest index among
  equally near references; on an empty tree the index returned is the tree's size, 0.
\<close>

definition dist2 :: "point \<Rightarrow> point \<Rightarrow> real" where
  "dist2 p q = (fst p - fst q) * (fst p - fst q) + (snd p - snd q) * (snd p - snd q)"

definition query :: "point list \<Rightarrow> point \<Rightarrow> nat" where
  "query cs q =
     (case filter (\<lambda>i. list_all (\<lambda>c. dist2 (cs ! i) q \<le> dist2 c q) cs) [0..<length cs] of
        [] \<Rightarrow> length cs
      | i # _ \<Rightarrow> i)"

subsection \<open>Relabelling one solution\<close>

text \<open>
  \<^verbatim>\<open>
  def _remap_lbls_single(pars):
      new_lbls, ref_centroids, ref_kdt, xys, xy = pars
      lbl_type = type(ref_centroids.index[0])
      ref_centroids_ids = pandas.Series(ref_centroids.index.values)
      solu_centroids = (xys.groupby(new_lbls)[xy].apply(lambda xys: xys.mean())
                        .drop(lbl_type(-1), errors="ignore"))
      _, nrst_ref_cl = ref_kdt.query(solu_centroids.values)
      remap_ids = pandas.Series(nrst_ref_cl, index=solu_centroids.index).map(
          ref_centroids_ids)
      return remap_ids
  \<close>
  \<open>remap_ids\<close> is a series from the solution's non-noise labels to reference labels;
  \<open>Series.map\<close> with a series looks each value up in its index, a value that is not
  there becoming NaN (\<open>None\<close>). The tree \<open>ref_kdt\<close> is the list of the reference
  centroids' coordinates.
\<close>

definition series_get :: "'v list \<Rightarrow> nat \<Rightarrow> 'v option" where
  "series_get vs i = (if i < length vs then Some (vs ! i) else None)"

definition remap_lbls_single ::
  "'l::linorder lbl_type \<Rightarrow> 'l list \<Rightarrow> ('l \<times> point) list \<Rightarrow> point list \<Rightarrow> ('l \<times> 'l option) list"
where
  "remap_lbls_single T new_lbls ref_centroids xys =
     (let ref_centroids_ids = map fst ref_centroids;
          ref_kdt = map snd ref_centroids;
          solu_centroids = centroids (minus_one T) xys new_lbls;
          nrst_ref_cl = map (\<lambda>lc. query ref_kdt (snd lc)) solu_centroids
      in zip (map fst solu_centroids) (map (series_get ref_centroids_ids) nrst_ref_cl))"

text \<open>\<open>solus_s.map(remap_ids)\<close>: a label outside the index of \<open>remap_ids\<close> becomes NaN.\<close>

definition series_map :: "('l \<times> 'l option) list \<Rightarrow> 'l list \<Rightarrow> 'l option list" where
  "series_map remap_ids solus_s =
     map (\<lambda>l. case map_of remap_ids l of None \<Rightarrow> None | Some v \<Rightarrow> v) solus_s"

definition remap_n_expand ::
  "'l::linorder lbl_type \<Rightarrow> 'l list \<Rightarrow> ('l \<times> point) list \<Rightarrow> point list \<Rightarrow> 'l option list"
where
  "remap_n_expand T solus_s ref_centroids xys =
     (let remap_ids = remap_lbls_single T solus_s ref_centroids xys;
          expanded = series_map remap_ids solus_s
      in expanded)"

subsection \<open>Relabelling all solutions\<close>

text \<open>
  \<open>ns_clusters[ns_clusters == ns_clusters.max()].iloc[[0]].index[0]\<close>: the first column
  whose count equals the maximum; with no column at all the selection is empty and
  \<open>.iloc[[0]]\<close> raises IndexError.
\<close>

definition ns_clusters :: "'l matrix \<Rightarrow> nat list" where
  "ns_clusters solus = map (\<lambda>x. length (remdups x)) solus"

definition pick_ref :: "nat list \<Rightarrow> error + nat" where
  "pick_ref ns =
     (case filter (\<lambda>i. ns ! i = Max (set ns)) [0..<length ns] of
        [] \<Rightarrow> Inl IndexError
      | i # _ \<Rightarrow> Inr i)"

definition parallel :: "int \<Rightarrow> bool" where
  "parallel n_jobs \<longleftrightarrow> n_jobs = -1 \<or> n_jobs > 1"

text \<open>
  The two ways of filling the holder \<open>remapped_solus\<close>. Sequential: one column
  assignment per iteration of the loop over \<open>solus.drop(ref, axis=1)\<close>. Parallel:
  \<open>pool.map\<close> (order-preserving, so the list \<open>map\<close>), then \<open>pandas.concat\<close>, which
  raises ValueError ("No objects to concatenate") on an empty list, then one assignment
  of all the columns \<open>s_ids\<close>.
\<close>

definition fill_sequential ::
  "'l::linorder lbl_type \<Rightarrow> 'l matrix \<Rightarrow> ('l \<times> point) list \<Rightarrow> point list \<Rightarrow> nat list
     \<Rightarrow> 'l option list list \<Rightarrow> 'l option list list"
where
  "fill_sequential T solus ref_centroids xys s_ids remapped_solus =
     fold (\<lambda>s holder.
             let remap_ids = remap_lbls_single T (solus ! s) ref_centroids xys
             in holder[s := series_map remap_ids (solus ! s)])
          s_ids remapped_solus"

definition fill_parallel ::
  "'l::linorder lbl_type \<Rightarrow> 'l matrix \<Rightarrow> ('l \<times> point) list \<Rightarrow> point list \<Rightarrow> nat list
     \<Rightarrow> 'l option list list \<Rightarrow> error + 'l option list list"
where
  "fill_parallel T solus ref_centroids xys s_ids remapped_solus =
     (let to_loop_over = map (\<lambda>s. solus ! s) s_ids;
          remapped = map (\<lambda>solus_s. remap_n_expand T solus_s ref_centroids xys) to_loop_over
      in if remapped = [] then Inl ValueError
         else Inr (fold (\<lambda>sc holder. holder[fst sc := snd sc]) (zip s_ids remapped)
                     remapped_solus))"

definition fillna :: "'l \<Rightarrow> 'l option list list \<Rightarrow> 'l matrix" where
  "fillna v df = map (map (\<lambda>c. case c of None \<Rightarrow> v | Some l \<Rightarrow> l)) df"

text \<open>
  \<open>remap_lbls(solus, xys, xy, n_jobs)\<close>. The result is the relabelled table and the
  warnings emitted. \<open>solus[ref].iloc[0]\<close> raises IndexError on a table without rows. The
  final \<open>astype(lbl_type)\<close> is the identity on cells that are all of type \<open>lbl_type\<close>.
\<close>

definition remap_lbls ::
  "'l::linorder lbl_type \<Rightarrow> 'l matrix \<Rightarrow> point list \<Rightarrow> int \<Rightarrow> error + ('l matrix \<times> warning list)"
where
  "remap_lbls T solus xys n_jobs =
     (case pick_ref (ns_clusters solus) of
        Inl e \<Rightarrow> Inl e
      | Inr ref \<Rightarrow>
          if solus ! ref = [] then Inl IndexError
          else
            let ref_centroids = centroids (minus_one T) xys (solus ! ref) in
            if length ref_centroids > 0 then
              let remapped_solus = map (map (\<lambda>_. Some (zeros T))) solus;
                  s_ids = filter (\<lambda>s. s \<noteq> ref) [0..<length solus]
              in case (if parallel n_jobs
                       then fill_parallel T solus ref_centroids xys s_ids remapped_solus
                       else Inr (fill_sequential T solus ref_centroids xys s_ids remapped_solus))
                 of Inl e \<Rightarrow> Inl e
                  | Inr filled \<Rightarrow>
                      Inr (fillna (minus_one T) (filled[ref := map Some (solus ! ref)]), [])
            else Inr (solus, [NoClustersIdentified]))"

section \<open>adbscan.py: majority voting\<close>

text \<open>
  \<open>Counter(a)\<close> is a dictionary from label to count whose keys iterate in the order
  they were first met; \<open>most_common(1)\<close> is \<open>max\<close> over its items by count, which
  keeps the first of several maximal items, and \<open>[0]\<close> raises IndexError on a row
  without cells.
\<close>

fun bump :: "'l \<Rightarrow> ('l \<times> nat) list \<Rightarrow> ('l \<times> nat) list" where
  "bump l [] = [(l, 1)]"
| "bump l (kc # kcs) = (if fst kc = l then (fst kc, Suc (snd kc)) # kcs else kc # bump l kcs)"

definition Counter :: "'l list \<Rightarrow> ('l \<times> nat) list" where
  "Counter a = fold bump a []"

fun first_max :: "('l \<times> nat) \<Rightarrow> ('l \<times> nat) list \<Rightarrow> ('l \<times> nat)" where
  "first_max best [] = best"
| "first_max best (kc # kcs) = first_max (if snd best < snd kc then kc else best) kcs"

definition most_common1 :: "('l \<times> nat) list \<Rightarrow> error + ('l \<times> nat)" where
  "most_common1 cnt = (case cnt of [] \<Rightarrow> Inl IndexError | kc # kcs \<Rightarrow> Inr (first_max kc kcs))"

fun sequence_err :: "(error + 'a) list \<Rightarrow> error + 'a list" where
  "sequence_err [] = Inr []"
| "sequence_err (r # rs) =
     (case r of Inl e \<Rightarrow> Inl e
      | Inr x \<Rightarrow> (case sequence_err rs of Inl e \<Rightarrow> Inl e | Inr xs \<Rightarrow> Inr (x # xs)))"

record 'l pred =
  lbls :: "'l list"
  pct :: "real list"

text \<open>
  \<^verbatim>\<open>
  counts = np.array(list(map(lambda a: Counter(a).most_common(1)[0], solus_relabelled.values)))
  winner = counts[:, 0]
  votes = counts[:, 1].astype(int) / solus_relabelled.shape[1]
  pred = pandas.DataFrame({"lbls": winner, "pct": votes}, index=solus_relabelled.index)
  \<close>
  The rows of \<open>solus_relabelled.values\<close> are read off the columns. On a table without
  rows \<open>counts\<close> is the one-dimensional empty array and \<open>counts[:, 0]\<close> raises
  IndexError; on a table without columns every row is empty.
\<close>

definition rows_of :: "'l matrix \<Rightarrow> 'l list list" where
  "rows_of df = (case df of [] \<Rightarrow> [] | c # _ \<Rightarrow> map (\<lambda>i. map (\<lambda>col. col ! i) df) [0..<length c])"

definition ensemble :: "'l matrix \<Rightarrow> error + 'l pred" where
  "ensemble solus_relabelled =
     (case sequence_err (map (\<lambda>a. most_common1 (Counter a)) (rows_of solus_relabelled)) of
        Inl e \<Rightarrow> Inl e
      | Inr counts \<Rightarrow>
          if counts = [] then Inl IndexError
          else
            let winner = map fst counts;
                votes = map (\<lambda>kc. real (snd kc) / real (length solus_relabelled)) counts
            in Inr \<lparr>lbls = winner, pct = votes\<rparr>)"

section \<open>adbscan.py: one draw\<close>

text \<open>\<open>str(i)\<close> for an integer: its decimal digits, after a minus sign when negative.\<close>

function digits :: "nat \<Rightarrow> string" where
  "digits n = (if n < 10 then [''0123456789'' ! n]
               else digits (n div 10) @ [''0123456789'' ! (n mod 10)])"
  by pat_completeness auto
termination
  by (relation "measure id") auto

definition py_str :: "int \<Rightarrow> string" where
  "py_str i = (if i < 0 then CHR ''-'' # digits (nat (- i)) else digits (nat i))"

definition str_lbl :: "string lbl_type" where
  "str_lbl = \<lparr>minus_one = py_str (- 1), zeros = []\<rparr>"

text \<open>\<open>int(x)\<close> truncates a float toward zero; \<open>xs[:k]\<close> with a negative \<open>k\<close> drops the
  last \<open>-k\<close> elements.\<close>

definition py_int :: "real \<Rightarrow> int" where
  "py_int x = (if 0 \<le> x then \<lfloor>x\<rfloor> else \<lceil>x\<rceil>)"

definition slice_to :: "int \<Rightarrow> 'a list \<Rightarrow> 'a list" where
  "slice_to k xs = (if 0 \<le> k then take (nat k) xs else take (length xs - nat (- k)) xs)"

text \<open>
  The external collaborators of a draw, taken as parameters: the random source behind
  \<open>np.random.shuffle\<close>, as a function from the generator state and the array to the
  shuffled array and the next state, and the density primitive
  \<open>DBSCAN(eps, min_samples, algorithm, n_jobs).fit(points, sample_weight).labels_\<close>,
  which may raise.
\<close>

type_synonym 'g shuffle_t = "'g \<Rightarrow> nat list \<Rightarrow> nat list \<times> 'g"

type_synonym dbscan_t =
  "real \<Rightarrow> int \<Rightarrow> string \<Rightarrow> int \<Rightarrow> point list \<Rightarrow> real list option \<Rightarrow> error + int list"

text \<open>
  Modelled from the spec: the nearest-neighbour classifier with \<open>k = 1\<close>, "given labeled
  reference points, assigns the label of the nearest reference point to each query
  point"; fitting on no reference point raises ValueError.
\<close>

definition knn_predict :: "point list \<Rightarrow> 'l list \<Rightarrow> point list \<Rightarrow> error + 'l list" where
  "knn_predict train train_lbls qs =
     (if train = [] then Inl ValueError
      else Inr (map (\<lambda>q. train_lbls ! query train q) qs))"

text \<open>
  \<^verbatim>\<open>
  def _one_draw(pars):
      n, X, sample_weight, xy, pct_exact, eps, min_samples, algorithm, n_jobs = pars
      rids = np.arange(n)
      np.random.shuffle(rids)
      rids = rids[: int(n * pct_exact)]
      X_thin = X.iloc[rids, :]
      thin_sample_weight = None
      if sample_weight is not None:
          thin_sample_weight = sample_weight.iloc[rids]
      min_samples = min_samples * pct_exact
      min_samples = 1 if min_samples < 1 else int(np.floor(min_samples))
      dbs = DBSCAN(eps=eps, min_samples=min_samples, algorithm=algorithm,
                   n_jobs=n_jobs).fit(X_thin[xy], sample_weight=thin_sample_weight)
      lbls_thin = pandas.Series(dbs.labels_.astype(str), index=X_thin.index)
      NR = KNeighborsClassifier(n_neighbors=1)
      NR.fit(X_thin[xy], lbls_thin)
      lbls_pred = pandas.Series(NR.predict(X[xy]), index=X.index)
      return lbls_pred
  \<close>
  \<open>.iloc\<close> with a position past the end raises IndexError; a series built from values
  and an index of another length raises ValueError.
\<close>

definition one_draw ::
  "'g shuffle_t \<Rightarrow> dbscan_t \<Rightarrow>
   nat \<times> point list \<times> real list option \<times> real \<times> real \<times> int \<times> string \<times> int \<Rightarrow>
   'g \<Rightarrow> (error + string list) \<times> 'g"
where
  "one_draw shuffle DBSCAN pars g =
     (case pars of (n, X, sample_weight, pct_exact', eps', min_samples', algorithm', n_jobs') \<Rightarrow>
      let (shuffled, g') = shuffle g [0..<n];
          rids = slice_to (py_int (real n * pct_exact')) shuffled
      in if \<exists>r \<in> set rids. length X \<le> r then (Inl IndexError, g')
         else
           let X_thin = map (\<lambda>r. X ! r) rids in
           case (case sample_weight of
                   None \<Rightarrow> Inr None
                 | Some w \<Rightarrow> if \<exists>r \<in> set rids. length w \<le> r then Inl IndexError
                             else Inr (Some (map (\<lambda>r. w ! r) rids)))
           of Inl e \<Rightarrow> (Inl e, g')
            | Inr thin_sample_weight \<Rightarrow>
                let ms = real_of_int min_samples' * pct_exact';
                    ms' = (if ms < 1 then 1 else \<lfloor>ms\<rfloor>)
                in case DBSCAN eps' ms' algorithm' n_jobs' X_thin thin_sample_weight of
                     Inl e \<Rightarrow> (Inl e, g')
                   | Inr dbs_labels \<Rightarrow>
                       if length dbs_labels \<noteq> length X_thin then (Inl ValueError, g')
                       else
                         let lbls_thin = map py_str dbs_labels
                         in (knn_predict X_thin lbls_thin X, g'))"

section \<open>adbscan.py: the estimator\<close>

record adbscan =
  eps :: real
  min_samples :: int
  algorithm :: string
  n_jobs :: int
  pct_exact :: real
  reps :: int
  keep_solus :: bool
  pct_thr :: real

text \<open>The attributes \<open>fit\<close> sets: \<open>labels\<close> is \<open>self.labels_\<close>, \<open>votes_pct\<close> the
  column \<open>pct\<close> of \<open>self.votes\<close>.\<close>

record fitted =
  labels :: "string list"
  votes_pct :: "real list"
  solus :: "string matrix option"
  solus_relabelled :: "string matrix option"

text \<open>The loop \<open>for i in range(self.reps): solus.iloc[:, i] = _one_draw(pars)\<close>, which an
  exception leaves at once.\<close>

fun draw_loop ::
  "'g shuffle_t \<Rightarrow> dbscan_t \<Rightarrow>
   nat \<times> point list \<times> real list option \<times> real \<times> real \<times> int \<times> string \<times> int \<Rightarrow>
   nat \<Rightarrow> 'g \<Rightarrow> (error + string matrix) \<times> 'g"
where
  "draw_loop shuffle DBSCAN pars 0 g = (Inr [], g)"
| "draw_loop shuffle DBSCAN pars (Suc k) g =
     (case one_draw shuffle DBSCAN pars g of
        (Inl e, g') \<Rightarrow> (Inl e, g')
      | (Inr lbls_pred, g') \<Rightarrow>
          (case draw_loop shuffle DBSCAN pars k g' of
             (Inl e, g'') \<Rightarrow> (Inl e, g'')
           | (Inr cols, g'') \<Rightarrow> (Inr (lbls_pred # cols), g'')))"

text \<open>
  \<open>ADBSCAN.fit\<close> up to \<open>self.votes = ensemble(solus_relabelled)\<close> (lines 179 to 226):
  the table of draws, the relabelled table and the votes, with the generator state and
  the warnings emitted so far. \<open>np.zeros((n, reps))\<close> raises ValueError on a negative
  dimension.
\<close>

definition fit_votes ::
  "'g shuffle_t \<Rightarrow> dbscan_t \<Rightarrow> adbscan \<Rightarrow> point list \<Rightarrow> real list option \<Rightarrow> 'g \<Rightarrow>
   (error + string matrix \<times> string matrix \<times> string pred) \<times> 'g \<times> warning list"
where
  "fit_votes shuffle DBSCAN self X sample_weight g =
     (let n = length X in
      if reps self < 0 then (Inl ValueError, g, [])
      else
        let w1 = (if parallel (n_jobs self) then [MultiCoreWarning] else []);
            pars = (n, X, sample_weight, pct_exact self, eps self, min_samples self,
                    algorithm self, n_jobs self)
        in case draw_loop shuffle DBSCAN pars (nat (reps self)) g of
             (Inl e, g') \<Rightarrow> (Inl e, g', w1)
           | (Inr drawn, g') \<Rightarrow>
               (case remap_lbls str_lbl drawn X (n_jobs self) of
                  Inl e \<Rightarrow> (Inl e, g', w1)
                | Inr (relabelled, w2) \<Rightarrow>
                    (case ensemble relabelled of
                       Inl e \<Rightarrow> (Inl e, g', w1 @ w2)
                     | Inr v \<Rightarrow> (Inr (drawn, relabelled, v), g', w1 @ w2))))"

text \<open>
  The rest of \<open>fit\<close> (lines 227 to 237): the labels whose vote share is below
  \<open>pct_thr\<close> are overwritten with \<open>lbl_type(-1)\<close>, where \<open>lbl_type\<close> is the type of
  \<open>solus.iloc[0, 0]\<close>, a string.
\<close>

definition fit ::
  "'g shuffle_t \<Rightarrow> dbscan_t \<Rightarrow> adbscan \<Rightarrow> point list \<Rightarrow> real list option \<Rightarrow> 'g \<Rightarrow>
   (error + fitted) \<times> 'g \<times> warning list"
where
  "fit shuffle DBSCAN self X sample_weight g =
     (case fit_votes shuffle DBSCAN self X sample_weight g of
        (Inl e, g', w) \<Rightarrow> (Inl e, g', w)
      | (Inr (drawn, relabelled, v), g', w) \<Rightarrow>
          if drawn = [] \<or> hd drawn = [] then (Inl IndexError, g', w)
          else
            let thresholded = map2 (\<lambda>l p. if p < pct_thr self then minus_one str_lbl else l)
                                (lbls v) (pct v)
            in (Inr \<lparr>labels = thresholded, votes_pct = pct v,
                      solus = (if keep_solus self then Some drawn else None),
                      solus_relabelled = (if keep_solus self then Some relabelled else None)\<rparr>,
                g', w))"

section \<open>Instances of the collaborators, for evaluation\<close>

text \<open>
  A random source that leaves the array as it is and counts the shuffles asked of it,
  and one that reverses the array.
\<close>

definition count_shuffle :: "nat shuffle_t" where
  "count_shuffle g xs = (xs, Suc g)"

definition rev_shuffle :: "nat shuffle_t" where
  "rev_shuffle g xs = (rev xs, Suc g)"

text \<open>
  A density primitive on samples whose points lie pairwise farther apart than the
  radius, with a minimum-neighbour count of 1: every point is a cluster of its own, and
  the clusters are numbered in the order of the sample. An empty sample is rejected
  with ValueError, as scikit-learn's input check does.
\<close>

definition dbscan_isolated :: dbscan_t where
  "dbscan_isolated eps' min_samples' algorithm' n_jobs' pts w =
     (if pts = [] then Inl ValueError else Inr (map int [0..<length pts]))"









section \<open>Specification-side notions\<close>

text \<open>
  The specification's count for the choice of the Reference Run: the number of distinct
  non-noise labels of a column.
\<close>

definition n_non_noise :: "'l \<Rightarrow> 'l list \<Rightarrow> nat" where
  "n_non_noise noise x = length (remdups (filter (\<lambda>l. l \<noteq> noise) x))"


text \<open>
  The specification's winner of a row: the first label, in the order the row is read,
  whose frequency in the row is the highest.
\<close>

definition first_seen :: "'a list \<Rightarrow> 'a list" where
  "first_seen xs = rev (remdups (rev xs))"

definition top_freq :: "'l list \<Rightarrow> 'l \<Rightarrow> bool" where
  "top_freq row l \<longleftrightarrow> list_all (\<lambda>k. count_list row k \<le> count_list row l) row"

definition winner_spec :: "'l list \<Rightarrow> 'l option" where
  "winner_spec row = List.find (top_freq row) row"


text \<open>
  One column as the relabelling leaves it: each label replaced by the reference label
  \<open>remap_ids\<close> gives it, and by the noise label where \<open>remap_ids\<close> gives none.
\<close>

definition relabel ::
  "'l::linorder lbl_type \<Rightarrow> ('l \<times> point) list \<Rightarrow> point list \<Rightarrow> 'l list \<Rightarrow> 'l list"
where
  "relabel T ref_centroids xys col =
     map (\<lambda>c. case c of None \<Rightarrow> minus_one T | Some l \<Rightarrow> l)
       (series_map (remap_lbls_single T col ref_centroids xys) col)"





section \<open>Verification: the false-discovery-rate cut-off\<close>

lemma filter_upt_first:
  assumes "filter P [0..<n] = y # ys"
  shows "y < n \<and> P y \<and> (\<forall>i<y. \<not> P i)"
proof -
  from assms obtain us vs where uv: "[0..<n] = us @ y # vs" "\<forall>u\<in>set us. \<not> P u" "P y"
    by (auto simp: filter_eq_Cons_iff)
  have yn: "y < n" using uv(1) by (metis atLeastLessThan_iff in_set_conv_decomp set_upt)
  have len: "length us = y"
  proof -
    have "[0..<n] ! length us = y" using uv(1) by (metis nth_append_length)
    moreover have "length us < n" using uv(1)
      by (metis length_upt add_Suc_right length_Cons length_append less_add_Suc1 minus_nat.diff_0)
    ultimately show ?thesis by simp
  qed
  have "\<forall>i<y. \<not> P i"
  proof (intro allI impI)
    fix i assume "i < y"
    then have "us ! i = [0..<n] ! i" using uv(1) len by (simp add: nth_append)
    also have "\<dots> = i" using \<open>i < y\<close> yn by simp
    finally have "i \<in> set us" using \<open>i < y\<close> len by (metis nth_mem)
    then show "\<not> P i" using uv(2) by blast
  qed
  then show ?thesis using yn uv(3) by blast
qed



section \<open>Verification: relabelling\<close>


lemma centroids_labels: "fst ` set (centroids noise xys ls) \<subseteq> set ls - {noise}"
  by (auto simp: centroids_def dest: set_zip_rightD)

lemma centroids_only_noise:
  assumes "set ls \<subseteq> {noise}"
  shows "centroids noise xys ls = []"
proof -
  have "\<forall>l \<in> set (sort (remdups (map snd (zip xys ls)))). \<not> l \<noteq> noise"
    using assms by (auto dest: set_zip_rightD)
  then have "filter (\<lambda>l. l \<noteq> noise) (sort (remdups (map snd (zip xys ls)))) = []"
    unfolding filter_empty_conv by blast
  then show ?thesis by (simp add: centroids_def)
qed

text \<open>
  C5. When the Reference Run holds nothing but the noise label, \<open>remap_lbls\<close> warns
  ("No clusters identified.") and returns the input table unchanged, raising nothing.
\<close>

theorem remap_lbls_no_clusters:
  assumes "pick_ref (ns_clusters M) = Inr ref"
      and "set (M ! ref) = {minus_one T}"
  shows "remap_lbls T M xys nj = Inr (M, [NoClustersIdentified])"
proof -
  have ne: "M ! ref \<noteq> []" using assms(2) by auto
  have "centroids (minus_one T) xys (M ! ref) = []"
    using assms(2) by (intro centroids_only_noise) simp
  then show ?thesis using assms(1) ne by (simp add: remap_lbls_def)
qed

lemmas remap_eval = remap_lbls_def pick_ref_def ns_clusters_def centroids_def group_pts_def
  mean_pt_def query_def dist2_def fill_sequential_def fill_parallel_def remap_lbls_single_def
  series_map_def series_get_def remap_n_expand_def fillna_def parallel_def int_lbl_def Let_def

theorem remap_lbls_no_clusters_witness:
  "pick_ref (ns_clusters [[- 1, - 1], [- 1, - 1::int]]) = Inr 0
   \<and> set ([[- 1, - 1], [- 1, - 1::int]] ! 0) = {minus_one int_lbl}
   \<and> remap_lbls int_lbl [[- 1, - 1], [- 1, - 1]] [(0, 0), (1, 1)] 1
       = Inr ([[- 1, - 1], [- 1, - 1]], [NoClustersIdentified])"
proof -
  have p: "pick_ref (ns_clusters [[- 1, - 1], [- 1, - 1::int]]) = Inr 0"
    by (simp add: pick_ref_def ns_clusters_def)
  have s: "set ([[- 1, - 1], [- 1, - 1::int]] ! 0) = {minus_one int_lbl}"
    by (simp add: int_lbl_def)
  show ?thesis using p s remap_lbls_no_clusters[OF p s, of "[(0, 0), (1, 1)]" 1] by simp
qed

text \<open>
  C1. The Reference Run should be the first column with the most distinct non-noise
  labels. \<open>ns_clusters\<close> counts the noise label too: on the columns \<open>[-1, 0]\<close> and
  \<open>[0, 1]\<close> the second has more non-noise labels, yet the first is picked; on
  \<open>[-1, -1]\<close> and \<open>[0, 0]\<close> the all-noise column is picked and the call reports
  that no clusters were identified.
\<close>

theorem remap_lbls_reference_counts_noise:
  "n_non_noise (minus_one int_lbl) ([[- 1, 0], [0, 1]] ! 0) < n_non_noise (minus_one int_lbl) ([[- 1, 0], [0, 1]] ! 1)
   \<and> pick_ref (ns_clusters [[- 1, 0], [0, 1::int]]) = Inr 0
   \<and> remap_lbls int_lbl [[- 1, 0], [0, 1]] [(0, 0), (1, 1)] 1 = Inr ([[- 1, 0], [0, 0]], [])
   \<and> remap_lbls int_lbl [[- 1, - 1], [0, 0]] [(0, 0), (1, 1)] 1
       = Inr ([[- 1, - 1], [0, 0]], [NoClustersIdentified])"
proof -
  have 1: "n_non_noise (minus_one int_lbl) ([[- 1, 0], [0, 1]] ! 0)
             < n_non_noise (minus_one int_lbl) ([[- 1, 0], [0, 1]] ! 1)"
    by (simp add: n_non_noise_def int_lbl_def)
  have 2: "pick_ref (ns_clusters [[- 1, 0], [0, 1::int]]) = Inr 0"
    by (simp add: pick_ref_def ns_clusters_def)
  have 3: "remap_lbls int_lbl [[- 1, 0], [0, 1]] [(0, 0), (1, 1)] 1 = Inr ([[- 1, 0], [0, 0]], [])"
    by (simp add: remap_eval)
  have 4: "remap_lbls int_lbl [[- 1, - 1], [0, 0]] [(0, 0), (1, 1)] 1
       = Inr ([[- 1, - 1], [0, 0]], [NoClustersIdentified])"
    by (simp add: remap_eval)
  show ?thesis using 1 2 3 4 by blast
qed

text \<open>
  C3. The parallel path should return what the sequential path returns. On a table of
  one column with a cluster the sequential path returns the table and the parallel
  path raises ValueError, \<open>pandas.concat\<close> being given an empty list.
\<close>

theorem remap_lbls_parallel_single_column:
  "remap_lbls int_lbl [[0, 0, 1]] [(0, 0), (1, 1), (5, 5)] 1 = Inr ([[0, 0, 1]], [])
   \<and> remap_lbls int_lbl [[0, 0, 1]] [(0, 0), (1, 1), (5, 5)] 2 = Inl ValueError
   \<and> remap_lbls int_lbl [[0, 0, 1]] [(0, 0), (1, 1), (5, 5)] (- 1) = Inl ValueError"
proof -
  have 1: "remap_lbls int_lbl [[0, 0, 1]] [(0, 0), (1, 1), (5, 5)] 1 = Inr ([[0, 0, 1]], [])"
    by (simp add: remap_eval)
  have 2: "remap_lbls int_lbl [[0, 0, 1]] [(0, 0), (1, 1), (5, 5)] 2 = Inl ValueError"
    by (simp add: remap_eval)
  have 3: "remap_lbls int_lbl [[0, 0, 1]] [(0, 0), (1, 1), (5, 5)] (- 1) = Inl ValueError"
    by (simp add: remap_eval)
  show ?thesis using 1 2 3 by blast
qed

text \<open>With at least one column besides the reference the two paths agree.\<close>

lemma fill_parallel_eq_sequential:
  assumes "s_ids \<noteq> []"
  shows "fill_parallel T M rc xys s_ids H = Inr (fill_sequential T M rc xys s_ids H)"
proof -
  have "fold (\<lambda>sc holder. holder[fst sc := snd sc])
          (zip s_ids (map (\<lambda>solus_s. remap_n_expand T solus_s rc xys) (map (\<lambda>s. M ! s) s_ids))) H
        = fold (\<lambda>s holder. holder[s := series_map (remap_lbls_single T (M ! s) rc xys) (M ! s)])
            s_ids H"
    by (induction s_ids arbitrary: H) (simp_all add: remap_n_expand_def)
  then show ?thesis using assms
    by (simp add: fill_parallel_def fill_sequential_def Let_def)
qed

lemma remap_lbls_parallel_eq_sequential:
  assumes "2 \<le> length M" and "parallel nj" and "\<not> parallel nj'"
  shows "remap_lbls T M xys nj = remap_lbls T M xys nj'"
proof (cases "pick_ref (ns_clusters M)")
  case (Inl e)
  then show ?thesis by (simp add: remap_lbls_def)
next
  case (Inr ref)
  have "\<exists>s<length M. s \<noteq> ref"
  proof (cases "ref = 0")
    case True
    then show ?thesis using assms(1) by (intro exI[of _ 1]) auto
  next
    case False
    then show ?thesis using assms(1) by (intro exI[of _ 0]) auto
  qed
  then have "filter (\<lambda>s. s \<noteq> ref) [0..<length M] \<noteq> []"
    by (auto simp: filter_empty_conv)
  then show ?thesis using Inr assms(2,3)
    by (simp add: remap_lbls_def fill_parallel_eq_sequential Let_def)
qed


section \<open>Verification: majority voting\<close>


lemma first_seen_snoc:
  "first_seen (xs @ [x]) = (if x \<in> set xs then first_seen xs else first_seen xs @ [x])"
  by (simp add: first_seen_def)

lemma set_first_seen [simp]: "set (first_seen xs) = set xs"
  by (simp add: first_seen_def)

lemma distinct_first_seen [simp]: "distinct (first_seen xs)"
  by (simp add: first_seen_def)

lemma bump_known:
  assumes "distinct ks" and "x \<in> set ks"
  shows "bump x (map (\<lambda>l. (l, c l)) ks) = map (\<lambda>l. (l, if l = x then Suc (c l) else c l)) ks"
  using assms by (induction ks) auto

lemma bump_new:
  assumes "x \<notin> set ks"
  shows "bump x (map (\<lambda>l. (l, c l)) ks) = map (\<lambda>l. (l, c l)) ks @ [(x, 1)]"
  using assms by (induction ks) auto

lemma Counter_snoc: "Counter (a @ [x]) = bump x (Counter a)"
  by (simp add: Counter_def)

lemma Counter_eq: "Counter a = map (\<lambda>l. (l, count_list a l)) (first_seen a)"
proof (induction a rule: rev_induct)
  case Nil
  show ?case by (simp add: Counter_def first_seen_def)
next
  case (snoc x a)
  show ?case
  proof (cases "x \<in> set a")
    case True
    have "Counter (a @ [x]) = bump x (map (\<lambda>l. (l, count_list a l)) (first_seen a))"
      using snoc by (simp add: Counter_snoc)
    also have "\<dots> = map (\<lambda>l. (l, if l = x then Suc (count_list a l) else count_list a l)) (first_seen a)"
      using True by (intro bump_known) simp_all
    also have "\<dots> = map (\<lambda>l. (l, count_list (a @ [x]) l)) (first_seen a)"
      by (intro map_cong) auto
    finally show ?thesis using True by (simp only: first_seen_snoc if_True)
  next
    case False
    have "Counter (a @ [x]) = bump x (map (\<lambda>l. (l, count_list a l)) (first_seen a))"
      using snoc by (simp add: Counter_snoc)
    also have "\<dots> = map (\<lambda>l. (l, count_list a l)) (first_seen a) @ [(x, 1)]"
      using False by (intro bump_new) simp
    also have "map (\<lambda>l. (l, count_list a l)) (first_seen a)
          = map (\<lambda>l. (l, count_list (a @ [x]) l)) (first_seen a)"
      using False by (intro map_cong) auto
    also have "(x, 1::nat) = (x, count_list (a @ [x]) x)" using False by simp
    finally show ?thesis using False by (simp only: first_seen_snoc if_False map_append list.map)
  qed
qed

lemma first_max_char:
  "(first_max b kcs = b \<and> (\<forall>k\<in>set kcs. snd k \<le> snd b))
   \<or> (\<exists>pre post. kcs = pre @ first_max b kcs # post \<and> snd b < snd (first_max b kcs)
        \<and> (\<forall>k\<in>set pre. snd k < snd (first_max b kcs))
        \<and> (\<forall>k\<in>set post. snd k \<le> snd (first_max b kcs)))"
proof (induction kcs arbitrary: b)
  case Nil
  show ?case by simp
next
  case (Cons k ks)
  show ?case
  proof (cases "snd b < snd k")
    case True
    then have w: "first_max b (k # ks) = first_max k ks" by simp
    from Cons[of k] show ?thesis
    proof
      assume h: "first_max k ks = k \<and> (\<forall>k'\<in>set ks. snd k' \<le> snd k)"
      have "k # ks = [] @ first_max b (k # ks) # ks" using h w by simp
      then show ?thesis using h w True by (intro disjI2 exI[of _ "[]"] exI[of _ ks]) simp
    next
      assume "\<exists>pre post. ks = pre @ first_max k ks # post \<and> snd k < snd (first_max k ks)
        \<and> (\<forall>k'\<in>set pre. snd k' < snd (first_max k ks))
        \<and> (\<forall>k'\<in>set post. snd k' \<le> snd (first_max k ks))"
      then obtain pre post where h: "ks = pre @ first_max k ks # post" "snd k < snd (first_max k ks)"
        "\<forall>k'\<in>set pre. snd k' < snd (first_max k ks)" "\<forall>k'\<in>set post. snd k' \<le> snd (first_max k ks)"
        by blast
      have "k # ks = (k # pre) @ first_max b (k # ks) # post" using h(1) w by simp
      moreover have "snd b < snd (first_max b (k # ks))" using True h(2) w by simp
      moreover have "\<forall>k'\<in>set (k # pre). snd k' < snd (first_max b (k # ks))" using h(2,3) w by simp
      moreover have "\<forall>k'\<in>set post. snd k' \<le> snd (first_max b (k # ks))" using h(4) w by simp
      ultimately show ?thesis by blast
    qed
  next
    case False
    then have w: "first_max b (k # ks) = first_max b ks" by simp
    from Cons[of b] show ?thesis
    proof
      assume h: "first_max b ks = b \<and> (\<forall>k'\<in>set ks. snd k' \<le> snd b)"
      then show ?thesis using False w by auto
    next
      assume "\<exists>pre post. ks = pre @ first_max b ks # post \<and> snd b < snd (first_max b ks)
        \<and> (\<forall>k'\<in>set pre. snd k' < snd (first_max b ks))
        \<and> (\<forall>k'\<in>set post. snd k' \<le> snd (first_max b ks))"
      then obtain pre post where h: "ks = pre @ first_max b ks # post" "snd b < snd (first_max b ks)"
        "\<forall>k'\<in>set pre. snd k' < snd (first_max b ks)" "\<forall>k'\<in>set post. snd k' \<le> snd (first_max b ks)"
        by blast
      have "k # ks = (k # pre) @ first_max b (k # ks) # post" using h(1) w by simp
      moreover have "snd b < snd (first_max b (k # ks))" using h(2) w by simp
      moreover have "\<forall>k'\<in>set (k # pre). snd k' < snd (first_max b (k # ks))"
        using h(2,3) w False by auto
      moreover have "\<forall>k'\<in>set post. snd k' \<le> snd (first_max b (k # ks))" using h(4) w by simp
      ultimately show ?thesis by blast
    qed
  qed
qed

lemma first_max_split:
  "\<exists>pre post. b # kcs = pre @ first_max b kcs # post
      \<and> (\<forall>k\<in>set pre. snd k < snd (first_max b kcs))
      \<and> (\<forall>k\<in>set post. snd k \<le> snd (first_max b kcs))"
proof -
  from first_max_char[of b kcs] show ?thesis
  proof
    assume h: "first_max b kcs = b \<and> (\<forall>k\<in>set kcs. snd k \<le> snd b)"
    then show ?thesis by (intro exI[of _ "[]"] exI[of _ kcs]) simp
  next
    assume "\<exists>pre post. kcs = pre @ first_max b kcs # post \<and> snd b < snd (first_max b kcs)
        \<and> (\<forall>k\<in>set pre. snd k < snd (first_max b kcs))
        \<and> (\<forall>k\<in>set post. snd k \<le> snd (first_max b kcs))"
    then obtain pre post where h: "kcs = pre @ first_max b kcs # post" "snd b < snd (first_max b kcs)"
        "\<forall>k\<in>set pre. snd k < snd (first_max b kcs)" "\<forall>k\<in>set post. snd k \<le> snd (first_max b kcs)"
      by blast
    have "b # kcs = (b # pre) @ first_max b kcs # post" using h(1) by simp
    moreover have "\<forall>k\<in>set (b # pre). snd k < snd (first_max b kcs)" using h(2,3) by simp
    ultimately show ?thesis using h(4) by blast
  qed
qed

lemma find_append:
  "List.find P (xs @ ys) = (case List.find P xs of Some x \<Rightarrow> Some x | None \<Rightarrow> List.find P ys)"
  by (induction xs) auto

lemma find_first_seen: "List.find P (first_seen xs) = List.find P xs"
proof (induction xs rule: rev_induct)
  case Nil
  show ?case by (simp add: first_seen_def)
next
  case (snoc x xs)
  show ?case
  proof (cases "x \<in> set xs")
    case True
    have "List.find P (xs @ [x]) = List.find P xs"
    proof (cases "List.find P xs")
      case None
      then have "\<not> P x" using True by (auto simp: find_None_iff)
      then show ?thesis using None by (simp add: find_append)
    next
      case (Some y)
      then show ?thesis by (simp add: find_append)
    qed
    then show ?thesis using True snoc by (simp add: first_seen_snoc)
  next
    case False
    then show ?thesis using snoc by (simp add: first_seen_snoc find_append)
  qed
qed


lemma most_common1_row:
  assumes "row \<noteq> []"
  shows "\<exists>w. most_common1 (Counter row) = Inr (w, count_list row w) \<and> winner_spec row = Some w"
proof -
  define f where "f = (\<lambda>l. (l, count_list row l))"
  define ks where "ks = first_seen row"
  have C: "Counter row = map f ks" unfolding f_def ks_def by (rule Counter_eq)
  have "ks \<noteq> []" using assms set_first_seen[of row] unfolding ks_def by (metis set_empty)
  then obtain kc kcs where L: "map f ks = kc # kcs" by (cases ks) auto
  define W where "W = first_max kc kcs"
  have mc: "most_common1 (Counter row) = Inr W"
    unfolding C L W_def by (simp add: most_common1_def)
  from first_max_split[of kc kcs] obtain pre post where
    sp: "kc # kcs = pre @ W # post" "\<forall>k\<in>set pre. snd k < snd W" "\<forall>k\<in>set post. snd k \<le> snd W"
    unfolding W_def by blast
  from sp(1) L have "map f ks = pre @ W # post" by simp
  then obtain ks1 w ks2 where
    d: "ks = ks1 @ w # ks2" "pre = map f ks1" "W = f w" "post = map f ks2"
    by (auto simp: map_eq_append_conv map_eq_Cons_conv)
  have lt: "\<forall>l\<in>set ks1. count_list row l < count_list row w"
    using sp(2) d(2,3) by (auto simp: f_def)
  have le: "\<forall>l\<in>set ks2. count_list row l \<le> count_list row w"
    using sp(3) d(3,4) by (auto simp: f_def)
  have setks: "set row = set ks1 \<union> {w} \<union> set ks2"
    using d(1) set_first_seen[of row] unfolding ks_def by auto
  have top: "top_freq row w"
    unfolding top_freq_def list_all_iff using lt le setks by (auto simp: less_imp_le)
  have nottop: "\<not> top_freq row l" if "l \<in> set ks1" for l
  proof
    assume "top_freq row l"
    moreover have "w \<in> set row" using setks by simp
    ultimately have "count_list row w \<le> count_list row l"
      unfolding top_freq_def list_all_iff by blast
    then show False using lt that by auto
  qed
  have "List.find (top_freq row) ks1 = None" using nottop by (auto simp: find_None_iff)
  then have "List.find (top_freq row) ks = Some w"
    unfolding d(1) using top by (simp add: find_append)
  then have "winner_spec row = Some w"
    unfolding winner_spec_def ks_def by (simp add: find_first_seen)
  then show ?thesis using mc d(3) by (auto simp: f_def)
qed

lemma sequence_err_all_ok:
  assumes "\<forall>x\<in>set xs. f x = Inr (h x)"
  shows "sequence_err (map f xs) = Inr (map h xs)"
  using assms by (induction xs) simp_all

lemma winner_spec_mem:
  assumes "winner_spec row = Some w"
  shows "w \<in> set row"
  using assms unfolding winner_spec_def by (auto simp: find_Some_iff)

text \<open>
  C4, as amended. For a table with at least one column and at least one row,
  \<open>ensemble\<close> returns one entry per row: the label of highest frequency in the row,
  the first met in reading order among equally frequent ones, and as vote share the
  winner's count divided by the number of columns, a value in (0, 1].
\<close>

theorem ensemble_majority:
  assumes "M \<noteq> []" and "\<forall>c \<in> set M. length c = N" and "0 < N"
  shows "\<exists>p. ensemble M = Inr p \<and> length (lbls p) = N \<and> length (pct p) = N \<and>
     (\<forall>i<N. winner_spec (map (\<lambda>c. c ! i) M) = Some (lbls p ! i)
          \<and> pct p ! i = real (count_list (map (\<lambda>c. c ! i) M) (lbls p ! i)) / real (length M)
          \<and> 0 < pct p ! i \<and> pct p ! i \<le> 1)"
proof -
  define h where "h = (\<lambda>row::'a list. (the (winner_spec row), count_list row (the (winner_spec row))))"
  define rs where "rs = map (\<lambda>i. map (\<lambda>c. c ! i) M) [0..<N]"
  obtain c0 cs where M: "M = c0 # cs" using assms(1) by (cases M) auto
  have "length c0 = N" using assms(2) M by simp
  then have rows: "rows_of M = rs" unfolding rows_of_def rs_def M by simp
  have ok: "\<forall>r\<in>set rs. most_common1 (Counter r) = Inr (h r)"
  proof
    fix r assume "r \<in> set rs"
    then have "r \<noteq> []" using assms(1) unfolding rs_def by auto
    from most_common1_row[OF this] show "most_common1 (Counter r) = Inr (h r)"
      unfolding h_def by auto
  qed
  have seq: "sequence_err (map (\<lambda>a. most_common1 (Counter a)) (rows_of M)) = Inr (map h rs)"
    unfolding rows using ok by (rule sequence_err_all_ok)
  have ne: "map h rs \<noteq> []" using assms(3) unfolding rs_def by simp
  define p where "p = \<lparr>lbls = map fst (map h rs),
                         pct = map (\<lambda>kc. real (snd kc) / real (length M)) (map h rs)\<rparr>"
  have e: "ensemble M = Inr p"
    unfolding ensemble_def seq p_def using ne by (simp add: Let_def)
  have lrs: "length rs = N" unfolding rs_def by simp
  have row_i: "winner_spec (map (\<lambda>c. c ! i) M) = Some (lbls p ! i)
          \<and> pct p ! i = real (count_list (map (\<lambda>c. c ! i) M) (lbls p ! i)) / real (length M)
          \<and> 0 < pct p ! i \<and> pct p ! i \<le> 1" if "i < N" for i
  proof -
    define r where "r = map (\<lambda>c. c ! i) M"
    have ri: "rs ! i = r" using that unfolding rs_def r_def by simp
    have rne: "r \<noteq> []" using assms(1) unfolding r_def by simp
    from most_common1_row[OF rne] obtain w where w: "winner_spec r = Some w" by blast
    have l: "lbls p ! i = w" using that lrs ri w unfolding p_def h_def by simp
    have q: "pct p ! i = real (count_list r w) / real (length M)"
      using that lrs ri w unfolding p_def h_def by simp
    have "w \<in> set r" using w by (rule winner_spec_mem)
    then have pos: "0 < count_list r w" using count_list_0_iff[of r w] by auto
    have "count_list r w \<le> length r" by (rule count_le_length)
    then have le: "count_list r w \<le> length M" unfolding r_def by simp
    have Mpos: "0 < length M" using assms(1) by simp
    have "0 < pct p ! i" unfolding q using pos Mpos by simp
    moreover have "pct p ! i \<le> 1" unfolding q using le Mpos by simp
    ultimately show ?thesis using w l q unfolding r_def by simp
  qed
  show ?thesis using e lrs row_i unfolding p_def by (intro exI[of _ p]) (simp add: p_def)
qed

theorem ensemble_majority_witness:
  "[[0, 0, 7, 7, - 1], [0, 0, - 1, 7, 7], [0, 0, 7, 7, 7::int]] \<noteq> [] \<and> (0::nat) < 5 \<and>
   (\<exists>p. ensemble [[0, 0, 7, 7, - 1], [0, 0, - 1, 7, 7], [0, 0, 7, 7, 7::int]] = Inr p
        \<and> length (lbls p) = 5 \<and> 0 < pct p ! 2 \<and> pct p ! 2 \<le> 1)"
proof -
  have h1: "[[0, 0, 7, 7, - 1], [0, 0, - 1, 7, 7], [0, 0, 7, 7, 7::int]] \<noteq> []" by simp
  have h2: "\<forall>c \<in> set [[0, 0, 7, 7, - 1], [0, 0, - 1, 7, 7], [0, 0, 7, 7, 7::int]]. length c = 5"
    by simp
  have h3: "(0::nat) < 5" by simp
  have i: "(2::nat) < 5" by simp
  from ensemble_majority[OF h1 h2 h3] obtain p where
    p: "ensemble [[0, 0, 7, 7, - 1], [0, 0, - 1, 7, 7], [0, 0, 7, 7, 7::int]] = Inr p"
       "length (lbls p) = 5"
       "\<forall>i<5. winner_spec (map (\<lambda>c. c ! i) [[0, 0, 7, 7, - 1], [0, 0, - 1, 7, 7], [0, 0, 7, 7, 7::int]])
                 = Some (lbls p ! i)
          \<and> pct p ! i = real (count_list (map (\<lambda>c. c ! i)
                 [[0, 0, 7, 7, - 1], [0, 0, - 1, 7, 7], [0, 0, 7, 7, 7::int]]) (lbls p ! i))
                 / real (length [[0, 0, 7, 7, - 1], [0, 0, - 1, 7, 7], [0, 0, 7, 7, 7::int]])
          \<and> 0 < pct p ! i \<and> pct p ! i \<le> 1"
    by blast
  from p(3) i have "0 < pct p ! 2 \<and> pct p ! 2 \<le> 1" by blast
  then show ?thesis using h1 h3 p(1,2) by blast
qed

text \<open>
  C4 as stated covers every table with at least one column; on a table with two columns
  and no row \<open>counts\<close> is the empty one-dimensional array and \<open>counts[:, 0]\<close> raises
  IndexError.
\<close>

theorem ensemble_no_rows_counterexample:
  "1 \<le> length [[], [] :: int list] \<and> ensemble [[], [] :: int list] = Inl IndexError"
  by (simp add: ensemble_def rows_of_def)


section \<open>Verification: the estimator\<close>


lemma slice_to_zero [simp]: "slice_to 0 xs = []"
  by (simp add: slice_to_def)

lemma one_draw_empty:
  "\<exists>e. one_draw shuffle DBSCAN (0, [], sw, pe, ep, ms, al, nj) g = (Inl e, snd (shuffle g []))"
proof -
  obtain sh g' where s: "shuffle g [] = (sh, g')" by (cases "shuffle g []")
  show ?thesis
    unfolding one_draw_def
    by (simp add: s py_int_def knn_predict_def Let_def split: option.splits sum.splits)
qed

lemma remap_lbls_no_columns: "remap_lbls T [] xys nj = Inl IndexError"
  by (simp add: remap_lbls_def pick_ref_def ns_clusters_def)

text \<open>
  C2, as amended. \<open>fit\<close> checks nothing before it starts. With \<open>reps = 0\<close> no draw
  runs and the call fails with the IndexError of the relabelling step, which finds no
  column. With an empty table of points and \<open>reps > 0\<close> the first draw is started
  (the array of row numbers is shuffled) and the call fails inside that draw.
\<close>

theorem fit_unvalidated:
  "(reps self = 0 \<longrightarrow>
      fit shuffle DBSCAN self X sw g
        = (Inl IndexError, g, if parallel (n_jobs self) then [MultiCoreWarning] else []))
   \<and> (0 < reps self \<longrightarrow>
      (\<exists>e. fit shuffle DBSCAN self [] sw g
        = (Inl e, snd (shuffle g []), if parallel (n_jobs self) then [MultiCoreWarning] else [])))"
proof (intro conjI impI)
  assume "reps self = 0"
  then show "fit shuffle DBSCAN self X sw g
        = (Inl IndexError, g, if parallel (n_jobs self) then [MultiCoreWarning] else [])"
    by (simp add: fit_def fit_votes_def remap_lbls_no_columns)
next
  assume r: "0 < reps self"
  then obtain k where k: "nat (reps self) = Suc k" by (cases "nat (reps self)") auto
  obtain e where e: "one_draw shuffle DBSCAN
       (0, [], sw, pct_exact self, eps self, min_samples self, algorithm self, n_jobs self) g
       = (Inl e, snd (shuffle g []))"
    using one_draw_empty[of shuffle DBSCAN sw "pct_exact self" "eps self" "min_samples self"
        "algorithm self" "n_jobs self" g] by (elim exE)
  have "fit shuffle DBSCAN self [] sw g
        = (Inl e, snd (shuffle g []), if parallel (n_jobs self) then [MultiCoreWarning] else [])"
    using r by (simp add: fit_def fit_votes_def k e)
  then show "\<exists>e. fit shuffle DBSCAN self [] sw g
        = (Inl e, snd (shuffle g []), if parallel (n_jobs self) then [MultiCoreWarning] else [])"
    by blast
qed

theorem fit_unvalidated_witness:
  "reps \<lparr>eps = 1, min_samples = 1, algorithm = ''auto'', n_jobs = 1, pct_exact = 1, reps = 0,
          keep_solus = False, pct_thr = 9 / 10\<rparr> = 0
   \<and> fit count_shuffle dbscan_isolated
        \<lparr>eps = 1, min_samples = 1, algorithm = ''auto'', n_jobs = 1, pct_exact = 1, reps = 0,
          keep_solus = False, pct_thr = 9 / 10\<rparr> [(0, 0), (5, 5)] None 0
       = (Inl IndexError, 0, [])
   \<and> 0 < reps \<lparr>eps = 1, min_samples = 1, algorithm = ''auto'', n_jobs = 1, pct_exact = 1,
          reps = 3, keep_solus = False, pct_thr = 9 / 10\<rparr>
   \<and> (\<exists>e. fit count_shuffle dbscan_isolated
        \<lparr>eps = 1, min_samples = 1, algorithm = ''auto'', n_jobs = 1, pct_exact = 1, reps = 3,
          keep_solus = False, pct_thr = 9 / 10\<rparr> [] None 0
       = (Inl e, 1, []))"
proof -
  have a: "fit count_shuffle dbscan_isolated
        \<lparr>eps = 1, min_samples = 1, algorithm = ''auto'', n_jobs = 1, pct_exact = 1, reps = 0,
          keep_solus = False, pct_thr = 9 / 10\<rparr> [(0, 0), (5, 5)] None 0
       = (Inl IndexError, 0, [])"
    using fit_unvalidated[of "\<lparr>eps = 1, min_samples = 1, algorithm = ''auto'', n_jobs = 1,
          pct_exact = 1, reps = 0, keep_solus = False, pct_thr = 9 / 10\<rparr>"
          count_shuffle dbscan_isolated "[(0, 0), (5, 5)]" None 0]
    by (simp add: parallel_def)
  have b: "\<exists>e. fit count_shuffle dbscan_isolated
        \<lparr>eps = 1, min_samples = 1, algorithm = ''auto'', n_jobs = 1, pct_exact = 1, reps = 3,
          keep_solus = False, pct_thr = 9 / 10\<rparr> [] None 0
       = (Inl e, 1, [])"
    using fit_unvalidated[of "\<lparr>eps = 1, min_samples = 1, algorithm = ''auto'', n_jobs = 1,
          pct_exact = 1, reps = 3, keep_solus = False, pct_thr = 9 / 10\<rparr>"
          count_shuffle dbscan_isolated "[(0, 0), (5, 5)]" None 0]
    by (simp add: parallel_def count_shuffle_def)
  show ?thesis using a b by simp
qed

text \<open>
  C2 as stated asks for a failure before any draw or relabelling. With an empty table
  and one repetition the call fails only after a shuffle was asked of the random source;
  with no repetition the error is the one \<open>remap_lbls\<close> raises on a table without
  columns.
\<close>

lemmas draw_eval = one_draw_def knn_predict_def py_int_def slice_to_def py_str_def
  count_shuffle_def rev_shuffle_def dbscan_isolated_def

theorem fit_no_fail_fast_counterexample:
  "fit count_shuffle dbscan_isolated
        \<lparr>eps = 1, min_samples = 1, algorithm = ''auto'', n_jobs = 1, pct_exact = 1, reps = 1,
          keep_solus = False, pct_thr = 9 / 10\<rparr> [] None 0
       = (Inl ValueError, 1, [])
   \<and> fit count_shuffle dbscan_isolated
        \<lparr>eps = 1, min_samples = 1, algorithm = ''auto'', n_jobs = 1, pct_exact = 1, reps = 0,
          keep_solus = False, pct_thr = 9 / 10\<rparr> [(0, 0), (5, 5)] None 0
       = (Inl IndexError, 0, [])
   \<and> remap_lbls str_lbl [] [(0, 0), (5, 5)] 1 = Inl IndexError"
proof -
  have 1: "fit count_shuffle dbscan_isolated
        \<lparr>eps = 1, min_samples = 1, algorithm = ''auto'', n_jobs = 1, pct_exact = 1, reps = 1,
          keep_solus = False, pct_thr = 9 / 10\<rparr> [] None 0
       = (Inl ValueError, 1, [])"
    by (simp add: fit_def fit_votes_def draw_eval parallel_def)
  have 2: "fit count_shuffle dbscan_isolated
        \<lparr>eps = 1, min_samples = 1, algorithm = ''auto'', n_jobs = 1, pct_exact = 1, reps = 0,
          keep_solus = False, pct_thr = 9 / 10\<rparr> [(0, 0), (5, 5)] None 0
       = (Inl IndexError, 0, [])"
    by (simp add: fit_def fit_votes_def remap_lbls_no_columns parallel_def)
  show ?thesis using 1 2 remap_lbls_no_columns by simp
qed


section \<open>Verification: the relabelled table in closed form\<close>


lemma fold_update_length [simp]:
  "length (fold (\<lambda>s h. h[s := F s]) ss H) = length H"
  by (induction ss arbitrary: H) simp_all

lemma fold_update_nth:
  assumes "j < length H"
  shows "fold (\<lambda>s h. h[s := F s]) ss H ! j = (if j \<in> set ss then F j else H ! j)"
  using assms
proof (induction ss arbitrary: H)
  case Nil
  show ?case by simp
next
  case (Cons s ss)
  have "fold (\<lambda>s h. h[s := F s]) ss (H[s := F s]) ! j
        = (if j \<in> set ss then F j else H[s := F s] ! j)"
    using Cons.prems by (intro Cons.IH) simp
  then show ?case using Cons.prems by (auto simp: nth_list_update)
qed

lemma pick_ref_lt:
  assumes "pick_ref ns = Inr r"
  shows "r < length ns"
proof -
  from assms obtain rest where
    "filter (\<lambda>i. ns ! i = Max (set ns)) [0..<length ns] = r # rest"
    by (auto simp: pick_ref_def split: list.splits)
  from filter_upt_first[OF this] show ?thesis by blast
qed

lemma remap_lbls_closed:
  assumes p: "pick_ref (ns_clusters M) = Inr r"
      and ne: "M ! r \<noteq> []"
      and rc: "centroids (minus_one T) xys (M ! r) \<noteq> []"
      and par: "parallel nj \<longrightarrow> 2 \<le> length M"
  shows "remap_lbls T M xys nj =
           Inr (map (\<lambda>j. if j = r then M ! r
                          else relabel T (centroids (minus_one T) xys (M ! r)) xys (M ! j))
                  [0..<length M], [])"
proof -
  define C where "C = centroids (minus_one T) xys (M ! r)"
  define ss where "ss = filter (\<lambda>s. s \<noteq> r) [0..<length M]"
  define H where "H = map (map (\<lambda>_. Some (zeros T))) M"
  define F where "F = (\<lambda>s. series_map (remap_lbls_single T (M ! s) C xys) (M ! s))"
  have rl: "r < length M" using pick_ref_lt[OF p] by (simp add: ns_clusters_def)
  have seq: "fill_sequential T M C xys ss H = fold (\<lambda>s h. h[s := F s]) ss H"
    unfolding fill_sequential_def F_def Let_def by (rule refl)
  have filled: "(if parallel nj then fill_parallel T M C xys ss H
                 else Inr (fill_sequential T M C xys ss H))
                = Inr (fold (\<lambda>s h. h[s := F s]) ss H)"
  proof (cases "parallel nj")
    case True
    then have "2 \<le> length M" using par by simp
    then have "\<exists>s<length M. s \<noteq> r"
      by (cases "r = 0") (auto intro: exI[of _ 1] exI[of _ 0])
    then have "ss \<noteq> []" unfolding ss_def by (auto simp: filter_empty_conv)
    then show ?thesis using True seq by (simp add: fill_parallel_eq_sequential)
  next
    case False
    then show ?thesis using seq by simp
  qed
  have res: "remap_lbls T M xys nj
        = Inr (fillna (minus_one T) ((fold (\<lambda>s h. h[s := F s]) ss H)[r := map Some (M ! r)]), [])"
    unfolding remap_lbls_def using p ne rc filled
    by (simp add: Let_def C_def[symmetric] ss_def[symmetric] H_def[symmetric])
  have "fillna (minus_one T) ((fold (\<lambda>s h. h[s := F s]) ss H)[r := map Some (M ! r)])
        = map (\<lambda>j. if j = r then M ! r else relabel T C xys (M ! j)) [0..<length M]"
  proof (rule nth_equalityI)
    show "length (fillna (minus_one T) ((fold (\<lambda>s h. h[s := F s]) ss H)[r := map Some (M ! r)]))
          = length (map (\<lambda>j. if j = r then M ! r else relabel T C xys (M ! j)) [0..<length M])"
      by (simp add: fillna_def H_def)
  next
    fix j
    assume "j < length (fillna (minus_one T) ((fold (\<lambda>s h. h[s := F s]) ss H)[r := map Some (M ! r)]))"
    then have j: "j < length M" by (simp add: fillna_def H_def)
    have jH: "j < length H" using j by (simp add: H_def)
    show "fillna (minus_one T) ((fold (\<lambda>s h. h[s := F s]) ss H)[r := map Some (M ! r)]) ! j
          = map (\<lambda>j. if j = r then M ! r else relabel T C xys (M ! j)) [0..<length M] ! j"
    proof (cases "j = r")
      case True
      then show ?thesis using j jH
        by (simp add: fillna_def comp_def map_idI)
    next
      case False
      then have "j \<in> set ss" using j unfolding ss_def by simp
      then have "fold (\<lambda>s h. h[s := F s]) ss H ! j = F j"
        using fold_update_nth[OF jH, of F ss] by simp
      then show ?thesis using False j jH
        by (simp add: fillna_def relabel_def F_def)
    qed
  qed
  then show ?thesis using res by (simp add: C_def)
qed

lemma exists_nearest:
  assumes "cs \<noteq> []"
  shows "\<exists>i<length cs. \<forall>c\<in>set cs. dist2 (cs ! i) q \<le> dist2 c q"
proof -
  have "finite ((\<lambda>c. dist2 c q) ` set cs)" "(\<lambda>c. dist2 c q) ` set cs \<noteq> {}"
    using assms by simp_all
  then have "Min ((\<lambda>c. dist2 c q) ` set cs) \<in> (\<lambda>c. dist2 c q) ` set cs" by (rule Min_in)
  then obtain c where c: "c \<in> set cs" "dist2 c q = Min ((\<lambda>c. dist2 c q) ` set cs)" by auto
  then obtain i where i: "i < length cs" "cs ! i = c" by (auto simp: in_set_conv_nth)
  have "\<forall>c'\<in>set cs. dist2 (cs ! i) q \<le> dist2 c' q"
    using c(2) i(2) by (auto intro: Min_le)
  then show ?thesis using i(1) by blast
qed

lemma query_first_nearest:
  assumes "cs \<noteq> []"
  shows "query cs q < length cs"
    and "\<forall>c\<in>set cs. dist2 (cs ! query cs q) q \<le> dist2 c q"
    and "\<forall>j<query cs q. \<exists>c\<in>set cs. dist2 c q < dist2 (cs ! j) q"
proof -
  define P where "P = (\<lambda>i. list_all (\<lambda>c. dist2 (cs ! i) q \<le> dist2 c q) cs)"
  from exists_nearest[OF assms, of q] obtain i where "i < length cs" "P i"
    unfolding P_def list_all_iff by blast
  then have "filter P [0..<length cs] \<noteq> []" by (auto simp: filter_empty_conv)
  then obtain y ys where f: "filter P [0..<length cs] = y # ys" by (cases "filter P [0..<length cs]") auto
  have q: "query cs q = y" unfolding query_def using f by (simp add: P_def)
  from filter_upt_first[OF f] have y: "y < length cs" "P y" "\<forall>i<y. \<not> P i" by auto
  show "query cs q < length cs" using q y(1) by simp
  show "\<forall>c\<in>set cs. dist2 (cs ! query cs q) q \<le> dist2 c q"
    using q y(2) unfolding P_def list_all_iff by simp
  show "\<forall>j<query cs q. \<exists>c\<in>set cs. dist2 c q < dist2 (cs ! j) q"
    using q y(3) unfolding P_def list_all_iff by (auto simp: not_le)
qed



section \<open>Verification: shape and entries of the relabelled table\<close>


lemma py_str_minus_one: "py_str (- 1) = ''-1''"
  by (simp add: py_str_def)

lemma length_relabel [simp]: "length (relabel T rc xys col) = length col"
  by (simp add: relabel_def series_map_def)

lemma remap_ids_values:
  assumes "map_of (remap_lbls_single T col rc xys) l = Some (Some v)"
  shows "v \<in> fst ` set rc"
proof -
  from assms have "(l, Some v) \<in> set (remap_lbls_single T col rc xys)" by (rule map_of_SomeD)
  then have "Some v \<in> set (map (series_get (map fst rc))
                 (map (\<lambda>lc. query (map snd rc) (snd lc)) (centroids (minus_one T) xys col)))"
    unfolding remap_lbls_single_def Let_def by (rule set_zip_rightD)
  then obtain i where "series_get (map fst rc) i = Some v" by auto
  then have "i < length rc" "v = map fst rc ! i"
    by (auto simp: series_get_def split: if_splits)
  then show ?thesis by (metis length_map nth_mem set_map)
qed

lemma set_relabel: "set (relabel T rc xys col) \<subseteq> fst ` set rc \<union> {minus_one T}"
proof
  fix v assume "v \<in> set (relabel T rc xys col)"
  then obtain l where l: "l \<in> set col"
    "v = (case (case map_of (remap_lbls_single T col rc xys) l of None \<Rightarrow> None | Some u \<Rightarrow> u)
            of None \<Rightarrow> minus_one T | Some k \<Rightarrow> k)"
    by (auto simp: relabel_def series_map_def)
  show "v \<in> fst ` set rc \<union> {minus_one T}"
  proof (cases "map_of (remap_lbls_single T col rc xys) l")
    case None
    then show ?thesis using l(2) by simp
  next
    case (Some u)
    show ?thesis
    proof (cases u)
      case None
      then show ?thesis using Some l(2) by simp
    next
      case (Some k)
      then have "map_of (remap_lbls_single T col rc xys) l = Some (Some k)"
        using \<open>map_of (remap_lbls_single T col rc xys) l = Some u\<close> by simp
      from remap_ids_values[OF this] show ?thesis
        using l(2) \<open>map_of (remap_lbls_single T col rc xys) l = Some u\<close> Some by simp
    qed
  qed
qed

lemma remap_lbls_cases:
  assumes "remap_lbls T M xys nj = Inr (M', w)"
  obtains (unchanged) r where "pick_ref (ns_clusters M) = Inr r" "M ! r \<noteq> []"
            "centroids (minus_one T) xys (M ! r) = []" "M' = M" "w = [NoClustersIdentified]"
        | (relabelled) r where "pick_ref (ns_clusters M) = Inr r" "M ! r \<noteq> []"
            "centroids (minus_one T) xys (M ! r) \<noteq> []"
            "M' = map (\<lambda>j. if j = r then M ! r
                          else relabel T (centroids (minus_one T) xys (M ! r)) xys (M ! j))
                  [0..<length M]" "w = []"
proof -
  from assms obtain r where p: "pick_ref (ns_clusters M) = Inr r"
    by (cases "pick_ref (ns_clusters M)") (auto simp: remap_lbls_def)
  have ne: "M ! r \<noteq> []" using assms p by (auto simp: remap_lbls_def split: if_splits)
  show thesis
  proof (cases "centroids (minus_one T) xys (M ! r) = []")
    case True
    then have "M' = M" "w = [NoClustersIdentified]"
      using assms p ne by (auto simp: remap_lbls_def)
    then show ?thesis using unchanged[OF p ne True] by blast
  next
    case False
    have par: "parallel nj \<longrightarrow> 2 \<le> length M"
    proof
      assume pj: "parallel nj"
      show "2 \<le> length M"
      proof (rule ccontr)
        assume "\<not> 2 \<le> length M"
        moreover have "r < length M" using pick_ref_lt[OF p] by (simp add: ns_clusters_def)
        ultimately have "length M = 1" "r = 0" by auto
        then have "filter (\<lambda>s. s \<noteq> r) [0..<length M] = []" by simp
        then have "remap_lbls T M xys nj = Inl ValueError"
          using p ne False pj by (simp add: remap_lbls_def fill_parallel_def Let_def)
        then show False using assms by simp
      qed
    qed
    from remap_lbls_closed[OF p ne False par] assms
    have "M' = map (\<lambda>j. if j = r then M ! r
                          else relabel T (centroids (minus_one T) xys (M ! r)) xys (M ! j))
                  [0..<length M]" "w = []" by simp_all
    then show ?thesis using relabelled[OF p ne False] by blast
  qed
qed

lemma remap_lbls_shape:
  assumes "remap_lbls T M xys nj = Inr (M', w)"
  shows "length M' = length M" and "\<forall>j<length M. length (M' ! j) = length (M ! j)"
  using assms by (cases rule: remap_lbls_cases; simp)+

lemma remap_lbls_entries:
  assumes "remap_lbls T M xys nj = Inr (M', w)" and "c' \<in> set M'"
  shows "set c' \<subseteq> \<Union>(set ` set M) \<union> {minus_one T}"
  using assms(1)
proof (cases rule: remap_lbls_cases)
  case (unchanged r)
  then show ?thesis using assms(2) by auto
next
  case (relabelled r)
  have rl: "r < length M" using pick_ref_lt[OF relabelled(1)] by (simp add: ns_clusters_def)
  from assms(2) relabelled(4) obtain j where j: "j < length M"
    "c' = (if j = r then M ! r else relabel T (centroids (minus_one T) xys (M ! r)) xys (M ! j))"
    by auto
  show ?thesis
  proof (cases "j = r")
    case True
    then have "c' \<in> set M" using j rl by simp
    then show ?thesis by auto
  next
    case False
    then have "set c' \<subseteq> fst ` set (centroids (minus_one T) xys (M ! r)) \<union> {minus_one T}"
      using j(2) set_relabel by simp
    moreover have "fst ` set (centroids (minus_one T) xys (M ! r)) \<subseteq> set (M ! r)"
      using centroids_labels by fast
    moreover have "M ! r \<in> set M" using rl by simp
    ultimately show ?thesis by blast
  qed
qed


section \<open>Verification: draws and votes\<close>


lemma knn_predict_ok:
  assumes "knn_predict train tls qs = Inr col" and "length tls = length train"
  shows "length col = length qs" and "set col \<subseteq> set tls"
proof -
  have ne: "train \<noteq> []" using assms(1) by (auto simp: knn_predict_def split: if_splits)
  have col: "col = map (\<lambda>q. tls ! query train q) qs"
    using assms(1) ne by (simp add: knn_predict_def)
  show "length col = length qs" using col by simp
  have "tls ! query train q \<in> set tls" for q
    using query_first_nearest(1)[OF ne, of q] assms(2) by simp
  then show "set col \<subseteq> set tls" using col by auto
qed

lemma one_draw_ok:
  assumes "one_draw shuffle DBSCAN (n, X, sw, pe, ep, ms, al, nj) g = (Inr col, g')"
  shows "length col = length X" and "set col \<subseteq> range py_str"
proof -
  obtain sh g1 where s: "shuffle g [0..<n] = (sh, g1)" by (cases "shuffle g [0..<n]")
  from assms obtain dbs rids where
    k: "knn_predict (map (\<lambda>r. X ! r) rids) (map py_str dbs) X = Inr col"
       "length dbs = length (map (\<lambda>r. X ! r) rids)"
    unfolding one_draw_def
    by (auto simp: s Let_def split: if_splits option.splits sum.splits)
  have l: "length (map py_str dbs) = length (map (\<lambda>r. X ! r) rids)" using k(2) by simp
  show "length col = length X" using knn_predict_ok(1)[OF k(1) l] .
  show "set col \<subseteq> range py_str" using knn_predict_ok(2)[OF k(1) l] by auto
qed

lemma draw_loop_ok:
  assumes "draw_loop shuffle DBSCAN (n, X, sw, pe, ep, ms, al, nj) k g = (Inr cols, g')"
  shows "length cols = k \<and> (\<forall>c\<in>set cols. length c = length X \<and> set c \<subseteq> range py_str)"
  using assms
proof (induction k arbitrary: g cols)
  case 0
  then show ?case by simp
next
  case (Suc k)
  from Suc.prems obtain col g1 rest where
    d: "one_draw shuffle DBSCAN (n, X, sw, pe, ep, ms, al, nj) g = (Inr col, g1)"
       "draw_loop shuffle DBSCAN (n, X, sw, pe, ep, ms, al, nj) k g1 = (Inr rest, g')"
       "cols = col # rest"
    by (auto split: prod.splits sum.splits)
  from Suc.IH[OF d(2)] one_draw_ok[OF d(1)] d(3) show ?case by simp
qed

lemma most_common1_mem:
  assumes "most_common1 (Counter row) = Inr kc"
  shows "fst kc \<in> set row"
proof -
  have "row \<noteq> []" using assms by (auto simp: most_common1_def Counter_def)
  from most_common1_row[OF this] obtain w where
    "most_common1 (Counter row) = Inr (w, count_list row w)" "winner_spec row = Some w" by blast
  then show ?thesis using assms winner_spec_mem by fastforce
qed

lemma sequence_err_Inr:
  assumes "sequence_err rs = Inr xs"
  shows "length xs = length rs \<and> (\<forall>i<length rs. rs ! i = Inr (xs ! i))"
  using assms
proof (induction rs arbitrary: xs)
  case Nil
  then show ?case by simp
next
  case (Cons r rs)
  from Cons.prems obtain x ys where r: "r = Inr x" "sequence_err rs = Inr ys" "xs = x # ys"
    by (auto split: sum.splits)
  from Cons.IH[OF r(2)] r(1,3) show ?case by (auto simp: nth_Cons split: nat.splits)
qed

lemma ensemble_ok:
  assumes "ensemble M = Inr p" and "\<forall>c\<in>set M. length c = N"
  shows "M \<noteq> []" and "0 < N" and "length (lbls p) = N" and "length (pct p) = N"
    and "\<forall>i<N. lbls p ! i \<in> set (map (\<lambda>c. c ! i) M)"
proof -
  from assms(1) obtain counts where
    c: "sequence_err (map (\<lambda>a. most_common1 (Counter a)) (rows_of M)) = Inr counts"
       "counts \<noteq> []" "lbls p = map fst counts"
       "pct p = map (\<lambda>kc. real (snd kc) / real (length M)) counts"
    by (auto simp: ensemble_def Let_def split: sum.splits if_splits)
  from sequence_err_Inr[OF c(1)] have
    s: "length counts = length (rows_of M)"
       "\<forall>i<length (rows_of M). most_common1 (Counter (rows_of M ! i)) = Inr (counts ! i)"
    by simp_all
  show Mne: "M \<noteq> []" using s(1) c(2) by (auto simp: rows_of_def)
  then obtain c0 cs where M: "M = c0 # cs" by (cases M) auto
  have "length c0 = N" using assms(2) M by simp
  then have rows: "rows_of M = map (\<lambda>i. map (\<lambda>c. c ! i) M) [0..<N]"
    unfolding rows_of_def M by simp
  have lc: "length counts = N" using s(1) rows by simp
  show "0 < N" using lc c(2) by auto
  show "length (lbls p) = N" using c(3) lc by simp
  show "length (pct p) = N" using c(4) lc by simp
  show "\<forall>i<N. lbls p ! i \<in> set (map (\<lambda>c. c ! i) M)"
  proof (intro allI impI)
    fix i assume i: "i < N"
    then have "most_common1 (Counter (map (\<lambda>c. c ! i) M)) = Inr (counts ! i)"
      using s(2) rows by simp
    from most_common1_mem[OF this] show "lbls p ! i \<in> set (map (\<lambda>c. c ! i) M)"
      using c(3) lc i by simp
  qed
qed


section \<open>Verification: the fitted labels\<close>


lemma fit_votes_ok:
  assumes "fit_votes shuffle DBSCAN self X sw g = (Inr (drawn, relabelled, v), g', w)"
  shows "\<forall>c\<in>set drawn. length c = length X \<and> set c \<subseteq> range py_str"
    and "\<forall>c\<in>set relabelled. length c = length X \<and> set c \<subseteq> range py_str"
    and "length (lbls v) = length X" and "length (pct v) = length X"
    and "set (lbls v) \<subseteq> range py_str"
    and "0 < length X" and "length drawn = nat (reps self)" and "0 < reps self"
proof -
  from assms obtain w2 where
    d: "draw_loop shuffle DBSCAN (length X, X, sw, pct_exact self, eps self, min_samples self,
          algorithm self, n_jobs self) (nat (reps self)) g = (Inr drawn, g')"
    and r: "remap_lbls str_lbl drawn X (n_jobs self) = Inr (relabelled, w2)"
    and e: "ensemble relabelled = Inr v"
    unfolding fit_votes_def
    by (auto simp: Let_def split: if_splits prod.splits sum.splits)
  from draw_loop_ok[OF d] have
    dl: "length drawn = nat (reps self)"
    and dc: "\<forall>c\<in>set drawn. length c = length X \<and> set c \<subseteq> range py_str" by simp_all
  show "\<forall>c\<in>set drawn. length c = length X \<and> set c \<subseteq> range py_str" by (rule dc)
  show "length drawn = nat (reps self)" by (rule dl)
  have noise: "minus_one str_lbl \<in> range py_str" by (simp add: str_lbl_def)
  have rc: "\<forall>c\<in>set relabelled. length c = length X \<and> set c \<subseteq> range py_str"
  proof
    fix c assume c: "c \<in> set relabelled"
    then obtain j where j: "j < length relabelled" "c = relabelled ! j"
      by (auto simp: in_set_conv_nth)
    have jd: "j < length drawn" using j(1) remap_lbls_shape(1)[OF r] by simp
    then have "length c = length (drawn ! j)" using remap_lbls_shape(2)[OF r] j(2) by simp
    then have 1: "length c = length X" using dc jd by simp
    have "set c \<subseteq> \<Union>(set ` set drawn) \<union> {minus_one str_lbl}"
      using remap_lbls_entries[OF r c] .
    then have 2: "set c \<subseteq> range py_str" using dc noise by blast
    show "length c = length X \<and> set c \<subseteq> range py_str" using 1 2 by simp
  qed
  show "\<forall>c\<in>set relabelled. length c = length X \<and> set c \<subseteq> range py_str" by (rule rc)
  have rect: "\<forall>c\<in>set relabelled. length c = length X" using rc by simp
  note E = ensemble_ok[OF e rect]
  show "length (lbls v) = length X" by (rule E(3))
  show "length (pct v) = length X" by (rule E(4))
  show "0 < length X" by (rule E(2))
  show "set (lbls v) \<subseteq> range py_str"
  proof
    fix l assume "l \<in> set (lbls v)"
    then obtain i where i: "i < length X" "l = lbls v ! i"
      using E(3) by (auto simp: in_set_conv_nth)
    then have "l \<in> set (map (\<lambda>c. c ! i) relabelled)" using E(5) by simp
    then obtain c where c: "c \<in> set relabelled" "l = c ! i" by auto
    then have "l \<in> set c" using rc i(1) by (metis nth_mem)
    then show "l \<in> range py_str" using rc c(1) by blast
  qed
  have "relabelled \<noteq> []" by (rule E(1))
  then have "drawn \<noteq> []" using remap_lbls_shape(1)[OF r] by auto
  then have "0 < length drawn" by simp
  then have "0 < nat (reps self)" using dl by simp
  then show "0 < reps self" by simp
qed

text \<open>
  C10. After a successful \<open>fit\<close> every label is a string: each entry of \<open>labels_\<close>,
  and of \<open>solus\<close> and \<open>solus_relabelled\<close> when they are kept, is the decimal string
  \<open>str(k)\<close> of an integer \<open>k\<close>, the density primitive's integer labels being cast in
  each draw, and the noise label is the string \<open>-1\<close>.
\<close>

theorem fit_labels_are_strings:
  assumes "fit shuffle DBSCAN self X sw g = (Inr res, g', w)"
  shows "minus_one str_lbl = ''-1''
       \<and> length (labels res) = length X
       \<and> set (labels res) \<subseteq> range py_str
       \<and> (\<forall>M. solus res = Some M \<longrightarrow> (\<forall>c\<in>set M. set c \<subseteq> range py_str))
       \<and> (\<forall>M. solus_relabelled res = Some M \<longrightarrow> (\<forall>c\<in>set M. set c \<subseteq> range py_str))"
proof -
  from assms obtain drawn relabelled v where
    fv: "fit_votes shuffle DBSCAN self X sw g = (Inr (drawn, relabelled, v), g', w)"
    and res: "res = \<lparr>labels = map2 (\<lambda>l p. if p < pct_thr self then minus_one str_lbl else l)
                                (lbls v) (pct v),
                     votes_pct = pct v,
                     solus = (if keep_solus self then Some drawn else None),
                     solus_relabelled = (if keep_solus self then Some relabelled else None)\<rparr>"
    unfolding fit_def by (auto simp: Let_def split: prod.splits sum.splits if_splits)
  note V = fit_votes_ok[OF fv]
  have n: "minus_one str_lbl = ''-1''" by (simp add: str_lbl_def py_str_minus_one)
  have noise: "minus_one str_lbl \<in> range py_str" by (simp add: str_lbl_def)
  have len: "length (labels res) = length X" using V(3,4) by (simp add: res)
  have lab: "set (labels res) \<subseteq> range py_str"
  proof
    fix l assume "l \<in> set (labels res)"
    then obtain a b where "(a, b) \<in> set (zip (lbls v) (pct v))"
      "l = (if b < pct_thr self then minus_one str_lbl else a)"
      by (auto simp: res)
    then show "l \<in> range py_str" using V(5) noise by (auto dest: set_zip_leftD)
  qed
  have s1: "\<forall>M. solus res = Some M \<longrightarrow> (\<forall>c\<in>set M. set c \<subseteq> range py_str)"
    using V(1) by (auto simp: res split: if_splits)
  have s2: "\<forall>M. solus_relabelled res = Some M \<longrightarrow> (\<forall>c\<in>set M. set c \<subseteq> range py_str)"
    using V(2) by (auto simp: res split: if_splits)
  show ?thesis using n len lab s1 s2 by blast
qed

lemmas fit_eval = fit_def fit_votes_def draw_eval remap_eval ensemble_def rows_of_def
  most_common1_def Counter_def str_lbl_def

lemma fit_example:
  "fit rev_shuffle dbscan_isolated
        \<lparr>eps = 1, min_samples = 1, algorithm = ''auto'', n_jobs = 1, pct_exact = 1, reps = 1,
          keep_solus = True, pct_thr = 9 / 10\<rparr> [(0, 0), (5, 5)] None 0
       = (Inr \<lparr>labels = [''1'', ''0''], votes_pct = [1, 1], solus = Some [[''1'', ''0'']],
               solus_relabelled = Some [[''1'', ''0'']]\<rparr>, 1, [])"
  by (simp add: fit_eval)

theorem fit_labels_are_strings_witness:
  "fit rev_shuffle dbscan_isolated
        \<lparr>eps = 1, min_samples = 1, algorithm = ''auto'', n_jobs = 1, pct_exact = 1, reps = 1,
          keep_solus = True, pct_thr = 9 / 10\<rparr> [(0, 0), (5, 5)] None 0
       = (Inr \<lparr>labels = [''1'', ''0''], votes_pct = [1, 1], solus = Some [[''1'', ''0'']],
               solus_relabelled = Some [[''1'', ''0'']]\<rparr>, 1, [])
   \<and> set [''1'', ''0''] \<subseteq> range py_str"
  using fit_labels_are_strings[OF fit_example] fit_example by simp


section \<open>Verification: one repetition on the whole table\<close>



lemma dist2_self [simp]: "dist2 p p = 0"
  by (simp add: dist2_def)













section \<open>Verification: the fitted labels and the reference column\<close>













lemma remap_lbls_entries_reference:
  assumes "remap_lbls T M xys nj = Inr (M', [])" and "pick_ref (ns_clusters M) = Inr r"
      and "c' \<in> set M'"
  shows "set c' \<subseteq> set (M ! r) \<union> {minus_one T}"
  using assms(1)
proof (cases rule: remap_lbls_cases)
  case (unchanged r')
  then show ?thesis by simp
next
  case (relabelled r')
  have rr: "r' = r" using relabelled(1) assms(2) by simp
  from assms(3) relabelled(4) obtain j where j: "j < length M"
    "c' = (if j = r then M ! r else relabel T (centroids (minus_one T) xys (M ! r)) xys (M ! j))"
    unfolding rr by auto
  show ?thesis
  proof (cases "j = r")
    case True
    then show ?thesis using j(2) by auto
  next
    case False
    then have "set c' \<subseteq> fst ` set (centroids (minus_one T) xys (M ! r)) \<union> {minus_one T}"
      using j(2) set_relabel by simp
    moreover have "fst ` set (centroids (minus_one T) xys (M ! r)) \<subseteq> set (M ! r)"
      using centroids_labels by fast
    ultimately show ?thesis by blast
  qed
qed

text \<open>
  When the relabelling ran without the warning, every fitted label is the noise label or
  a label of the reference column.
\<close>

lemma fit_labels_in_reference:
  assumes "fit shuffle DBSCAN self X sw g = (Inr res, g', w)"
      and "NoClustersIdentified \<notin> set w"
      and "fit_votes shuffle DBSCAN self X sw g = (Inr (drawn, relabelled, v), g'', w')"
      and "pick_ref (ns_clusters drawn) = Inr r"
  shows "set (labels res) \<subseteq> set (drawn ! r) \<union> {minus_one str_lbl}"
proof -
  from assms(1,3) have res: "labels res = map2 (\<lambda>l p. if p < pct_thr self then minus_one str_lbl else l)
                                (lbls v) (pct v)" and ww: "w' = w"
    unfolding fit_def by (auto simp: Let_def split: if_splits)
  from assms(3) obtain w2 where
    rm: "remap_lbls str_lbl drawn X (n_jobs self) = Inr (relabelled, w2)"
    and e: "ensemble relabelled = Inr v"
    and w: "w' = (if parallel (n_jobs self) then [MultiCoreWarning] else []) @ w2"
    unfolding fit_votes_def
    by (auto simp: Let_def split: if_splits prod.splits sum.splits)
  have "w2 = []"
    using rm assms(2) w ww by (cases rule: remap_lbls_cases) auto
  then have rm': "remap_lbls str_lbl drawn X (n_jobs self) = Inr (relabelled, [])" using rm by simp
  note V = fit_votes_ok[OF assms(3)]
  have rect: "\<forall>c\<in>set relabelled. length c = length X" using V(2) by simp
  note E = ensemble_ok[OF e rect]
  have "set (lbls v) \<subseteq> set (drawn ! r) \<union> {minus_one str_lbl}"
  proof
    fix l assume "l \<in> set (lbls v)"
    then obtain i where i: "i < length X" "l = lbls v ! i"
      using E(3) by (auto simp: in_set_conv_nth)
    then have "l \<in> set (map (\<lambda>c. c ! i) relabelled)" using E(5) by simp
    then obtain c where c: "c \<in> set relabelled" "l = c ! i" by auto
    then have "l \<in> set c" using rect i(1) by (metis nth_mem)
    then show "l \<in> set (drawn ! r) \<union> {minus_one str_lbl}"
      using remap_lbls_entries_reference[OF rm' assms(4) c(1)] by blast
  qed
  then have sub: "set (lbls v) \<subseteq> set (drawn ! r) \<union> {minus_one str_lbl}" .
  show ?thesis
  proof
    fix l assume "l \<in> set (labels res)"
    then obtain a b where ab: "(a, b) \<in> set (zip (lbls v) (pct v))"
      "l = (if b < pct_thr self then minus_one str_lbl else a)"
      unfolding res by auto
    have "a \<in> set (lbls v)" using ab(1) by (rule set_zip_leftD)
    then show "l \<in> set (drawn ! r) \<union> {minus_one str_lbl}" using sub ab(2) by auto
  qed
qed


section \<open>Verification: means of merged groups\<close>








section \<open>Verification: the relabelling as a map on labels\<close>










section \<open>Verification: relabelling a relabelled column\<close>







section \<open>Verification: relabelling twice\<close>









end
